theory Spec2Isabelle
  imports Main "HOL-Library.Word"
begin

unbundle bit_operations_syntax

section \<open>Buffers, keys and the hash\<close>

text \<open>
  A Node \<open>Buffer\<close> is a sequence of bytes. A \<open>PublicKey\<close> is an object whose
  \<open>toBytes()\<close> gives its bytes; the web3 class only builds keys of 32 bytes, which the
  predicate \<open>valid_key\<close> records. JavaScript numbers are used here as integers
  (timestamps, nonces, indices, voter counts) and are modelled by \<open>int\<close>.

  \<open>keccak_256\<close> comes from the library js-sha3. Every function that hashes takes it as
  its first argument \<open>keccak_256\<close>: the function from the bytes hashed to the bytes of
  \<open>Buffer.from(keccak_256(data), "hex")\<close>.
\<close>

type_synonym byte = "8 word"
type_synonym Buffer = "byte list"
type_synonym hash_fn = "Buffer \<Rightarrow> Buffer"

datatype PublicKey = PublicKey (toBytes: Buffer)

definition valid_key :: "PublicKey \<Rightarrow> bool" where
  "valid_key k = (length (toBytes k) = 32)"

datatype error = RangeError

definition alloc :: "nat \<Rightarrow> Buffer" where
  "alloc n = replicate n 0"

text \<open>The low \<open>n\<close> bytes of an integer, least significant first (two's complement).\<close>

fun le_bytes :: "nat \<Rightarrow> int \<Rightarrow> Buffer" where
  "le_bytes 0 v = []"
| "le_bytes (Suc n) v = word_of_int v # le_bytes n (v div 256)"

text \<open>
  \<open>buf.writeBigInt64LE(BigInt(v))\<close> at offset 0: Node raises a RangeError when the value
  is not a signed 64-bit integer or when the buffer is shorter than 8 bytes; otherwise
  the first 8 bytes of the buffer are overwritten. (\<open>BigInt\<close> itself raises on a number
  that is not integral; numbers being integers here, that case does not arise.)
\<close>

definition writeBigInt64LE :: "Buffer \<Rightarrow> int \<Rightarrow> error + Buffer" where
  "writeBigInt64LE buf v =
     (if - (2 ^ 63) \<le> v \<and> v < 2 ^ 63 \<and> 8 \<le> length buf
      then Inr (le_bytes 8 v @ drop 8 buf)
      else Inl RangeError)"

section \<open>Leaf and nullifier derivation (sdk/compression.ts)\<close>

definition createCompressedVoterLeaf ::
  "hash_fn \<Rightarrow> PublicKey \<Rightarrow> PublicKey \<Rightarrow> PublicKey \<Rightarrow> int \<Rightarrow> error + Buffer" where
  "createCompressedVoterLeaf keccak_256 voter election attestation registeredAt =
     (let voterBytes = toBytes voter;
          electionBytes = toBytes election;
          attestationBytes = toBytes attestation
      in case writeBigInt64LE (alloc 8) registeredAt of
           Inl e \<Rightarrow> Inl e
         | Inr registeredAtBytes \<Rightarrow>
             Inr (keccak_256 (concat
               [voterBytes, electionBytes, attestationBytes, registeredAtBytes])))"

text \<open>The helper of the same name in tests/compression.test.ts.\<close>

definition createCompressedVoterLeaf_test ::
  "hash_fn \<Rightarrow> PublicKey \<Rightarrow> PublicKey \<Rightarrow> PublicKey \<Rightarrow> int \<Rightarrow> error + Buffer" where
  "createCompressedVoterLeaf_test keccak_256 voter election attestation registeredAt =
     (let voterBytes = toBytes voter;
          electionBytes = toBytes election;
          attestationBytes = toBytes attestation
      in case writeBigInt64LE (alloc 8) registeredAt of
           Inl e \<Rightarrow> Inl e
         | Inr registeredAtBytes \<Rightarrow>
             (let data = concat
                    [voterBytes, electionBytes, attestationBytes, registeredAtBytes]
              in Inr (keccak_256 data)))"

text \<open>\<open>nonce: number = 0\<close>: an omitted argument is \<open>None\<close> and stands for 0.\<close>

definition createNullifier ::
  "hash_fn \<Rightarrow> PublicKey \<Rightarrow> PublicKey \<Rightarrow> int option \<Rightarrow> error + Buffer" where
  "createNullifier keccak_256 voter election nonce_arg =
     (let nonce = (case nonce_arg of None \<Rightarrow> 0 | Some n \<Rightarrow> n);
          voterBytes = toBytes voter;
          electionBytes = toBytes election
      in case writeBigInt64LE (alloc 8) nonce of
           Inl e \<Rightarrow> Inl e
         | Inr nonceBytes \<Rightarrow>
             Inr (keccak_256 (concat [voterBytes, electionBytes, nonceBytes])))"

text \<open>
  Reading 8 bytes back as a signed 64-bit little-endian integer, written from the
  words of the byte layout and not from \<open>le_bytes\<close>.
\<close>

fun le_value :: "Buffer \<Rightarrow> int" where
  "le_value [] = 0"
| "le_value (b # bs) = uint b + 256 * le_value bs"

definition int64_of_le :: "Buffer \<Rightarrow> int" where
  "int64_of_le bs = (if le_value bs < 2 ^ 63 then le_value bs else le_value bs - 2 ^ 64)"

section \<open>Merkle tree sizing\<close>

definition getMerkleTreeSize :: "int \<Rightarrow> nat \<times> nat" where
  "getMerkleTreeSize maxVoters =
     (if maxVoters \<le> 1024 then (10, 64)
      else if maxVoters \<le> 4096 then (12, 64)
      else if maxVoters \<le> 16384 then (14, 64)
      else (20, 256))"

section \<open>SimpleMerkleTree\<close>

record SimpleMerkleTree =
  leaves :: "Buffer list"

definition new_tree :: SimpleMerkleTree where
  "new_tree = \<lparr>leaves = []\<rparr>"

definition addLeaf :: "SimpleMerkleTree \<Rightarrow> Buffer \<Rightarrow> SimpleMerkleTree" where
  "addLeaf t leaf = t\<lparr>leaves := leaves t @ [leaf]\<rparr>"

definition getLeaves :: "SimpleMerkleTree \<Rightarrow> Buffer list" where
  "getLeaves t = leaves t"

definition getRoot :: "SimpleMerkleTree \<Rightarrow> Buffer" where
  "getRoot t =
     (if length (leaves t) = 0 then alloc 32
      else if length (leaves t) = 1 then leaves t ! 0
      else leaves t ! (length (leaves t) - 1))"

definition getProof :: "SimpleMerkleTree \<Rightarrow> int \<Rightarrow> Buffer list" where
  "getProof t leafIndex = []"

text \<open>
  \<open>(leafIndex & (1 << i)) === 0\<close>. JavaScript's bitwise operators work on 32-bit
  integers: \<open>&\<close> first converts \<open>leafIndex\<close> with ToInt32, and \<open><<\<close> uses only the low
  five bits of the shift count, so \<open>1 << 32\<close> is 1.
\<close>

definition ToInt32 :: "int \<Rightarrow> 32 word" where
  "ToInt32 n = word_of_int n"

definition shl :: "32 word \<Rightarrow> nat \<Rightarrow> 32 word" where
  "shl x i = push_bit (i mod 32) x"

definition isLeftNode :: "int \<Rightarrow> nat \<Rightarrow> bool" where
  "isLeftNode leafIndex i = (ToInt32 leafIndex AND shl 1 i = 0)"

text \<open>The \<open>for\<close> loop of \<open>verifyProof\<close>, from level \<open>i\<close> on, over the siblings left.\<close>

fun verifyProof_loop :: "hash_fn \<Rightarrow> int \<Rightarrow> nat \<Rightarrow> Buffer list \<Rightarrow> Buffer \<Rightarrow> Buffer" where
  "verifyProof_loop keccak_256 leafIndex i [] computedHash = computedHash"
| "verifyProof_loop keccak_256 leafIndex i (sibling # rest) computedHash =
     verifyProof_loop keccak_256 leafIndex (Suc i) rest
       (if isLeftNode leafIndex i
        then keccak_256 (concat [computedHash, sibling])
        else keccak_256 (concat [sibling, computedHash]))"

definition verifyProof :: "hash_fn \<Rightarrow> Buffer \<Rightarrow> Buffer list \<Rightarrow> int \<Rightarrow> Buffer \<Rightarrow> bool" where
  "verifyProof keccak_256 leaf proof leafIndex root =
     (if length proof = 0 then leaf = root
      else verifyProof_loop keccak_256 leafIndex 0 proof leaf = root)"

text \<open>
  The reconstruction in the words of the specification: at level \<open>i\<close> the order of the
  concatenation is chosen by bit \<open>i\<close> of the leaf index.
\<close>

fun reconstruct :: "hash_fn \<Rightarrow> int \<Rightarrow> nat \<Rightarrow> Buffer list \<Rightarrow> Buffer \<Rightarrow> Buffer" where
  "reconstruct H leafIndex i [] current = current"
| "reconstruct H leafIndex i (sibling # rest) current =
     reconstruct H leafIndex (Suc i) rest
       (if bit leafIndex i then H (sibling @ current) else H (current @ sibling))"

text \<open>The tree after admitting a sequence of leaves with \<open>addLeaf\<close>, one after the other.\<close>

definition admit_all :: "Buffer list \<Rightarrow> SimpleMerkleTree" where
  "admit_all ls = foldl addLeaf new_tree ls"

text \<open>A hash without collisions: no two different byte strings with one digest.\<close>

definition collision_free :: "hash_fn \<Rightarrow> bool" where
  "collision_free H = (\<forall>x y. H x = H y \<longrightarrow> x = y)"

section \<open>The election ledger\<close>

text \<open>
  The instruction handlers of the on-chain program (create_election, register_voter,
  cast_vote, cast_batch_votes, close_election) are not among the source files, which
  hold only their callers and tests. The definitions of this section are therefore
  written from the specification, each marked as such.
\<close>

text \<open>Modelled from the spec: an identity (wallet, authority, election or attestation
  reference) of section 3, as its bytes; the program's key type is missing.\<close>

type_synonym ident = Buffer

text \<open>Modelled from the spec: the lifecycle states of section 4.1; the program's enum is missing.\<close>

datatype ElectionStatus = Pending | Active | Ended | Cancelled

text \<open>
  Modelled from the spec: the error kinds of sections 6 and 7; the program's errors.rs
  is missing. \<open>CounterOverflow\<close> is the fatal counter overflow of section 4.4 and
  \<open>BatchTooLarge\<close> the rejection of a batch above the cap of section 4.5, for which
  the specification gives no name.
\<close>

datatype ledger_error =
    TooManyCandidates | InvalidTimeRange | InvalidChoice
  | Unauthorized | AlreadyClosed
  | ElectionNotStarted | ElectionEnded
  | InvalidAttestation | ExpiredAttestation | AttestationMismatch
  | DuplicateRegistration | CapacityExceeded | InvalidMerkleProof | NotRegistered
  | AlreadyVoted
  | CounterOverflow | BatchTooLarge

text \<open>Modelled from the spec: the external attestation of section 3 (subject, kind, expiry).\<close>

record Attestation =
  subject :: ident
  attestation_kind :: nat
  expires_at :: int

text \<open>Modelled from the spec: the voter admission record of section 3.\<close>

record VoterAdmission =
  adm_wallet :: ident
  adm_election :: ident
  adm_attestation :: ident
  adm_timestamp :: int

text \<open>
  Modelled from the spec: the Election of section 3 together with the accumulator, the
  admission guard, the legacy admission records and the nullifier registry scoped to
  it, as one context object (section 9). The program's account structs are missing.
\<close>

record Election =
  election_id :: ident
  authority :: ident
  candidates :: "string list"
  vote_counts :: "nat list"
  total_votes :: nat
  start_time :: int
  end_time :: int
  status :: ElectionStatus
  accumulator_root :: Buffer
  admitted_count :: nat
  capacity :: nat
  compression :: bool
  accumulator :: "Buffer list"
  admitted_wallets :: "ident set"
  admission_records :: "ident \<rightharpoonup> VoterAdmission"
  nullifier_registry :: "Buffer set"

text \<open>
  Modelled from the spec: the eligibility evidence of sections 6 and 9. A membership
  proof carries the attestation reference and admission timestamp from which the leaf
  is regenerated, the leaf index and the sibling hashes; a direct record names the
  wallet whose admission record is read.
\<close>

datatype EligibilityEvidence =
    MembershipProof ident int nat "Buffer list"
  | DirectRecord ident

text \<open>Modelled from the spec: a vote entry of section 4.5, (wallet, choice, evidence).\<close>

type_synonym vote_entry = "ident \<times> int \<times> EligibilityEvidence"

text \<open>Modelled from the spec: at most 10 candidates (section 3); the program's constant
  is missing.\<close>

definition max_candidates :: nat where
  "max_candidates = 10"

text \<open>Modelled from the spec: labels of bounded length (section 3); the program's bound is
  missing and taken as 50, the label size of the README's account sizing.\<close>

definition max_label_length :: nat where
  "max_label_length = 50"

text \<open>Modelled from the spec: the batch cap of section 4.5, 50; the program's constant is
  missing.\<close>

definition batch_cap :: nat where
  "batch_cap = 50"

text \<open>Modelled from the spec: the largest value of a counter, counters being unsigned
  (section 4.4) and of 64 bits in the README's account layout; the program's type is
  missing.\<close>

definition counter_max :: nat where
  "counter_max = 2 ^ 64 - 1"

text \<open>Modelled from the spec: the depth tiers of the accumulator, section 4.2;
  create_election.rs is missing.\<close>

definition accumulator_depth :: "nat \<Rightarrow> nat" where
  "accumulator_depth cap =
     (if cap \<le> 1024 then 10 else if cap \<le> 4096 then 12
      else if cap \<le> 16384 then 14 else 20)"

text \<open>
  Modelled from the spec: the canonical root of the empty fixed-depth binary hash
  structure of sections 4.1 and 4.2; the program's accumulator is missing.
\<close>

fun empty_root :: "hash_fn \<Rightarrow> nat \<Rightarrow> Buffer" where
  "empty_root H 0 = alloc 32"
| "empty_root H (Suc d) = H (empty_root H d @ empty_root H d)"

text \<open>Modelled from the spec: the root over the leaves appended so far (section 4.2), the
  left half of the positions below the left child; the program's accumulator is missing.\<close>

fun tree_root :: "hash_fn \<Rightarrow> nat \<Rightarrow> Buffer list \<Rightarrow> Buffer" where
  "tree_root H 0 ls = (case ls of [] \<Rightarrow> alloc 32 | l # rest \<Rightarrow> l)"
| "tree_root H (Suc d) ls =
     (if ls = [] then empty_root H (Suc d)
      else H (tree_root H d (take (2 ^ d) ls) @ tree_root H d (drop (2 ^ d) ls)))"

text \<open>
  Modelled from the spec: the leaf hash of section 4.2, in the byte layout of the client
  function, which the specification requires to regenerate it; the program's
  utils/compression.rs is missing.
\<close>

definition leaf_hash :: "hash_fn \<Rightarrow> ident \<Rightarrow> ident \<Rightarrow> ident \<Rightarrow> int \<Rightarrow> Buffer" where
  "leaf_hash H wallet election attestationRef timestamp =
     H (wallet @ election @ attestationRef @ le_bytes 8 timestamp)"

text \<open>Modelled from the spec: the nullifier hash of section 4.3, in the byte layout of the
  client function; the program's nullifier derivation is missing.\<close>

definition nullifier_hash :: "hash_fn \<Rightarrow> ident \<Rightarrow> ident \<Rightarrow> int \<Rightarrow> Buffer" where
  "nullifier_hash H wallet election nonce = H (wallet @ election @ le_bytes 8 nonce)"

text \<open>Modelled from the spec: \<open>verifyMembership\<close> of section 4.2; the program's
  utils/merkle.rs is missing.\<close>

definition verifyMembership :: "hash_fn \<Rightarrow> Buffer \<Rightarrow> Buffer list \<Rightarrow> nat \<Rightarrow> Buffer \<Rightarrow> bool" where
  "verifyMembership H leaf siblings leafIndex root =
     (reconstruct H (int leafIndex) 0 siblings leaf = root)"

text \<open>Modelled from the spec: a candidate label is non-empty and of bounded length
  (section 4.1); create_election.rs is missing.\<close>

definition label_ok :: "string \<Rightarrow> bool" where
  "label_ok l = (l \<noteq> [] \<and> length l \<le> max_label_length)"

text \<open>
  Modelled from the spec: \<open>create\<close> of section 4.1; create_election.rs is missing. The
  specification names two errors for its checks: the checks on the candidates are given
  \<open>TooManyCandidates\<close>, those on the time range and the capacity \<open>InvalidTimeRange\<close>.
\<close>

definition create ::
  "hash_fn \<Rightarrow> ident \<Rightarrow> ident \<Rightarrow> string list \<Rightarrow> int \<Rightarrow> int \<Rightarrow> bool \<Rightarrow> nat \<Rightarrow> int
     \<Rightarrow> ledger_error + Election" where
  "create H eid caller cands startTime endTime compressionMode cap now =
     (if \<not> (1 \<le> length cands \<and> length cands \<le> max_candidates \<and> list_all label_ok cands)
      then Inl TooManyCandidates
      else if \<not> (startTime < endTime \<and> 0 < cap) then Inl InvalidTimeRange
      else Inr \<lparr>election_id = eid, authority = caller, candidates = cands,
                vote_counts = replicate (length cands) 0, total_votes = 0,
                start_time = startTime, end_time = endTime,
                status = (if startTime \<le> now then Active else Pending),
                accumulator_root = empty_root H (accumulator_depth cap),
                admitted_count = 0, capacity = cap, compression = compressionMode,
                accumulator = [], admitted_wallets = {},
                admission_records = Map.empty, nullifier_registry = {}\<rparr>)"

text \<open>
  Modelled from the spec: the status of section 4.1 as derived from the stored status
  and the time of the operation; the program's status accessor is missing.
\<close>

definition current_status :: "Election \<Rightarrow> int \<Rightarrow> ElectionStatus" where
  "current_status s now =
     (case status s of
        Pending \<Rightarrow> (if now < start_time s then Pending
                     else if now < end_time s then Active else Ended)
      | Active \<Rightarrow> (if now < end_time s then Active else Ended)
      | Ended \<Rightarrow> Ended
      | Cancelled \<Rightarrow> Cancelled)"

text \<open>Modelled from the spec: whether voting is currently permitted (section 4.1): Active
  and now within [start, end); the program's accessor is missing.\<close>

definition voting_permitted :: "Election \<Rightarrow> int \<Rightarrow> bool" where
  "voting_permitted s now =
     (current_status s now = Active \<and> start_time s \<le> now \<and> now < end_time s)"

text \<open>Modelled from the spec: \<open>close\<close> of section 4.1; close_election.rs is missing.\<close>

definition close :: "Election \<Rightarrow> ident \<Rightarrow> ledger_error + Election" where
  "close s caller =
     (if caller \<noteq> authority s then Inl Unauthorized
      else if status s = Ended \<or> status s = Cancelled then Inl AlreadyClosed
      else Inr (s\<lparr>status := Ended\<rparr>))"

text \<open>
  Modelled from the spec: \<open>admit\<close> of section 4.2, with the mandatory guard against a
  second admission of a wallet; register_voter.rs is missing. The attestation is what
  the external reader returned, \<open>None\<close> when there is none.
\<close>

definition admit ::
  "hash_fn \<Rightarrow> Election \<Rightarrow> int \<Rightarrow> ident \<Rightarrow> ident \<Rightarrow> Attestation option
     \<Rightarrow> ledger_error + (nat \<times> Buffer \<times> Election)" where
  "admit H s now wallet attestationRef att =
     (case att of
        None \<Rightarrow> Inl InvalidAttestation
      | Some a \<Rightarrow>
          if subject a \<noteq> wallet then Inl AttestationMismatch
          else if expires_at a \<le> now then Inl ExpiredAttestation
          else if wallet \<in> admitted_wallets s then Inl DuplicateRegistration
          else if capacity s \<le> admitted_count s then Inl CapacityExceeded
          else if compression s then
            (let leaf = leaf_hash H wallet (election_id s) attestationRef now;
                 leafIndex = length (accumulator s);
                 newLeaves = accumulator s @ [leaf];
                 newRoot = tree_root H (accumulator_depth (capacity s)) newLeaves
             in Inr (leafIndex, newRoot,
                  s\<lparr>accumulator := newLeaves, accumulator_root := newRoot,
                    admitted_count := admitted_count s + 1,
                    admitted_wallets := insert wallet (admitted_wallets s)\<rparr>))
          else
            Inr (admitted_count s, accumulator_root s,
                  s\<lparr>admission_records := (admission_records s)(wallet \<mapsto>
                       \<lparr>adm_wallet = wallet, adm_election = election_id s,
                        adm_attestation = attestationRef, adm_timestamp = now\<rparr>),
                    admitted_count := admitted_count s + 1,
                    admitted_wallets := insert wallet (admitted_wallets s)\<rparr>))"

text \<open>
  Modelled from the spec: the eligibility check of section 4.4, resolved by the
  compression-mode flag (section 9): a valid membership proof in compressed mode, an
  existing admission record of the wallet in legacy mode; cast_vote.rs is missing.
\<close>

definition eligibility_error ::
  "hash_fn \<Rightarrow> Election \<Rightarrow> ident \<Rightarrow> EligibilityEvidence \<Rightarrow> ledger_error option" where
  "eligibility_error H s wallet ev =
     (if compression s then
        (case ev of
           MembershipProof attestationRef timestamp leafIndex siblings \<Rightarrow>
             if verifyMembership H
                  (leaf_hash H wallet (election_id s) attestationRef timestamp)
                  siblings leafIndex (accumulator_root s)
             then None else Some InvalidMerkleProof
         | DirectRecord r \<Rightarrow> Some InvalidMerkleProof)
      else
        (case ev of
           MembershipProof attestationRef timestamp leafIndex siblings \<Rightarrow> Some NotRegistered
         | DirectRecord r \<Rightarrow>
             (case admission_records s r of
                None \<Rightarrow> Some NotRegistered
              | Some a \<Rightarrow> if adm_wallet a = wallet then None else Some NotRegistered)))"

text \<open>
  Modelled from the spec: \<open>castVote\<close> of section 4.4 with the nullifier registry of
  section 4.3; cast_vote.rs is missing. The preconditions are checked in the order the
  specification lists them, and nothing is changed unless all hold.
\<close>

definition castVote :: "hash_fn \<Rightarrow> Election \<Rightarrow> int \<Rightarrow> vote_entry \<Rightarrow> ledger_error + Election" where
  "castVote H s now entry =
     (case entry of (wallet, choice, ev) \<Rightarrow>
        if current_status s now = Pending \<or> now < start_time s then Inl ElectionNotStarted
        else if \<not> voting_permitted s now then Inl ElectionEnded
        else if \<not> (0 \<le> choice \<and> choice < int (length (candidates s))) then Inl InvalidChoice
        else case eligibility_error H s wallet ev of
               Some e \<Rightarrow> Inl e
             | None \<Rightarrow>
                 (let n = nullifier_hash H wallet (election_id s) 0
                  in if n \<in> nullifier_registry s then Inl AlreadyVoted
                     else if counter_max \<le> vote_counts s ! nat choice
                             \<or> counter_max \<le> total_votes s then Inl CounterOverflow
                     else Inr (s\<lparr>vote_counts := (vote_counts s)
                                   [nat choice := vote_counts s ! nat choice + 1],
                                 total_votes := total_votes s + 1,
                                 nullifier_registry := insert n (nullifier_registry s),
                                 status := Active\<rparr>)))"

text \<open>
  Modelled from the spec: the entries of a batch applied in order to a working state
  (section 4.5), stopping at the first that fails; cast_batch_votes.rs is missing.
\<close>

fun apply_entries :: "hash_fn \<Rightarrow> int \<Rightarrow> Election \<Rightarrow> vote_entry list \<Rightarrow> ledger_error + Election" where
  "apply_entries H now w [] = Inr w"
| "apply_entries H now w (entry # rest) =
     (case castVote H w now entry of
        Inl e \<Rightarrow> Inl e
      | Inr w' \<Rightarrow> apply_entries H now w' rest)"

text \<open>
  Modelled from the spec: \<open>castBatch\<close> of section 4.5; cast_batch_votes.rs is missing.
  The working state is handed back only when every entry has passed.
\<close>

definition castBatch :: "hash_fn \<Rightarrow> Election \<Rightarrow> int \<Rightarrow> vote_entry list \<Rightarrow> ledger_error + Election" where
  "castBatch H s now entries =
     (if batch_cap < length entries then Inl BatchTooLarge
      else apply_entries H now s entries)"

text \<open>Modelled from the spec: the operations on an existing election (section 6); the
  program's instruction enum is missing.\<close>

datatype operation =
    RegisterVoter ident ident "Attestation option"
  | CastVote vote_entry
  | CastBatch "vote_entry list"
  | CloseElection ident

text \<open>
  Modelled from the spec: an operation is a run-to-completion transaction (sections 5
  and 7): a failed one leaves the state it found, a successful one commits its result.
  The runtime that does this for the program is missing.
\<close>

definition commit :: "Election \<Rightarrow> ledger_error + Election \<Rightarrow> Election" where
  "commit s r = (case r of Inl e \<Rightarrow> s | Inr s' \<Rightarrow> s')"

text \<open>Modelled from the spec: one operation at the time \<open>now\<close> sampled for it (section 5),
  as a transaction; the program's dispatch in lib.rs is missing.\<close>

fun apply_operation :: "hash_fn \<Rightarrow> Election \<Rightarrow> int \<times> operation \<Rightarrow> Election" where
  "apply_operation H s (now, RegisterVoter wallet attestationRef att) =
     commit s (map_sum id (\<lambda>r. snd (snd r)) (admit H s now wallet attestationRef att))"
| "apply_operation H s (now, CastVote entry) = commit s (castVote H s now entry)"
| "apply_operation H s (now, CastBatch entries) = commit s (castBatch H s now entries)"
| "apply_operation H s (now, CloseElection caller) = commit s (close s caller)"

text \<open>Modelled from the spec: the state after a sequence of operations, one at a time
  (section 5); the runtime that sequences them is missing.\<close>

definition run :: "hash_fn \<Rightarrow> Election \<Rightarrow> (int \<times> operation) list \<Rightarrow> Election" where
  "run H s ops = foldl (apply_operation H) s ops"

text \<open>
  The tally invariant of section 3, and what the working state \<open>w\<close> of a batch
  processed at time \<open>now\<close> keeps of the state \<open>s\<close> the batch started from: only
  counters, spent nullifiers and the lazily derived status move, and only forward.
\<close>

definition tally_consistent :: "Election \<Rightarrow> bool" where
  "tally_consistent s =
     (length (vote_counts s) = length (candidates s)
      \<and> sum_list (vote_counts s) = total_votes s)"

definition working_state_of :: "int \<Rightarrow> Election \<Rightarrow> Election \<Rightarrow> bool" where
  "working_state_of now s w =
     (w = s\<lparr>vote_counts := vote_counts w, total_votes := total_votes w,
            nullifier_registry := nullifier_registry w, status := status w\<rparr>
      \<and> nullifier_registry s \<subseteq> nullifier_registry w
      \<and> length (vote_counts w) = length (vote_counts s)
      \<and> list_all2 (\<le>) (vote_counts s) (vote_counts w)
      \<and> total_votes s \<le> total_votes w
      \<and> (status w = status s \<or> (status w = Active \<and> voting_permitted s now)))"

text \<open>A stand-in hash for evaluating the definitions on concrete inputs.\<close>

definition toy_hash :: hash_fn where
  "toy_hash bs = 7 # bs"

text \<open>
  A legacy-mode election for evaluating the ledger on concrete inputs: two candidates,
  four admitted wallets, of which wallet \<open>[4]\<close> has already voted.
\<close>

definition scenario_start :: Election where
  "scenario_start =
     \<lparr>election_id = [9], authority = [8], candidates = [''A'', ''B''],
      vote_counts = [0, 0], total_votes = 0, start_time = 100, end_time = 200,
      status = Active, accumulator_root = empty_root toy_hash (accumulator_depth 1000),
      admitted_count = 0, capacity = 1000, compression = False, accumulator = [],
      admitted_wallets = {}, admission_records = Map.empty, nullifier_registry = {}\<rparr>"

definition scenario_attestation :: "ident \<Rightarrow> Attestation option" where
  "scenario_attestation wallet =
     Some \<lparr>subject = wallet, attestation_kind = 0, expires_at = 1000\<rparr>"

definition scenario_ops :: "(int \<times> operation) list" where
  "scenario_ops =
     [(100, RegisterVoter [1] [11] (scenario_attestation [1])),
      (101, RegisterVoter [2] [12] (scenario_attestation [2])),
      (102, RegisterVoter [3] [13] (scenario_attestation [3])),
      (103, RegisterVoter [4] [14] (scenario_attestation [4])),
      (110, CastVote ([4], 1, DirectRecord [4]))]"

definition scenario_state :: Election where
  "scenario_state = run toy_hash scenario_start scenario_ops"

definition scenario_batch :: "vote_entry list" where
  "scenario_batch =
     [([1], 0, DirectRecord [1]), ([2], 1, DirectRecord [2]),
      ([3], 0, DirectRecord [3]), ([4], 1, DirectRecord [4])]"

section \<open>Byte layout of 64-bit integers\<close>

lemma length_le_bytes: "length (le_bytes n v) = n"
  by (induction n arbitrary: v) simp_all

lemma le_value_le_bytes: "le_value (le_bytes n v) = v mod 256 ^ n"
proof (induction n arbitrary: v)
  case 0
  show ?case by simp
next
  case (Suc n)
  have "le_value (le_bytes (Suc n) v) = v mod 256 + 256 * ((v div 256) mod 256 ^ n)"
    by (simp add: Suc uint_word_of_int)
  also have "\<dots> = v mod 256 ^ Suc n"
    using zmod_zmult2_eq [of "256 ^ n" v 256] by simp
  finally show ?case .
qed

lemma int64_of_le_le_bytes:
  assumes "- (2 ^ 63) \<le> v" "v < 2 ^ 63"
  shows "int64_of_le (le_bytes 8 v) = v"
proof (cases "0 \<le> v")
  case True
  with assms have "v mod 256 ^ 8 = v" by simp
  with assms show ?thesis by (simp add: int64_of_le_def le_value_le_bytes)
next
  case False
  have "(v + 2 ^ 64) mod 2 ^ 64 = v + 2 ^ 64"
    using assms False by (intro mod_pos_pos_trivial) auto
  then have "v mod 256 ^ 8 = v + 2 ^ 64" by simp
  then have "le_value (le_bytes 8 v) = v + 2 ^ 64" by (simp add: le_value_le_bytes)
  with False assms show ?thesis by (simp add: int64_of_le_def)
qed

lemma writeBigInt64LE_alloc:
  "writeBigInt64LE (alloc 8) v =
     (if - (2 ^ 63) \<le> v \<and> v < 2 ^ 63 then Inr (le_bytes 8 v) else Inl RangeError)"
  by (simp add: writeBigInt64LE_def alloc_def)

section \<open>Leaf derivation\<close>

text \<open>
  Claim C6. The client-side leaf derivation is a fixed function: for keys of 32 bytes and
  a timestamp that is a signed 64-bit integer, \<open>createCompressedVoterLeaf\<close> returns
  the hash of the 104 bytes voter, election, attestation and the timestamp as 8 bytes
  that read back, little-endian and signed, as the timestamp; and the helper of the
  test suite is the same function as the one of the SDK, on every input.
\<close>

theorem leaf_derivation_layout:
  "createCompressedVoterLeaf_test = createCompressedVoterLeaf
   \<and> (valid_key voter \<and> valid_key election \<and> valid_key attestation
        \<and> - (2 ^ 63) \<le> registeredAt \<and> registeredAt < 2 ^ 63 \<longrightarrow>
      createCompressedVoterLeaf keccak_256 voter election attestation registeredAt
        = Inr (keccak_256 (toBytes voter @ toBytes election @ toBytes attestation
                 @ le_bytes 8 registeredAt))
      \<and> length (toBytes voter @ toBytes election @ toBytes attestation
                 @ le_bytes 8 registeredAt) = 104
      \<and> length (le_bytes 8 registeredAt) = 8
      \<and> int64_of_le (le_bytes 8 registeredAt) = registeredAt)"
proof (intro conjI impI)
  show "createCompressedVoterLeaf_test = createCompressedVoterLeaf"
    by (intro ext)
      (simp add: createCompressedVoterLeaf_test_def createCompressedVoterLeaf_def Let_def
         split: sum.split)
next
  assume a: "valid_key voter \<and> valid_key election \<and> valid_key attestation
        \<and> - (2 ^ 63) \<le> registeredAt \<and> registeredAt < 2 ^ 63"
  then show "createCompressedVoterLeaf keccak_256 voter election attestation registeredAt
        = Inr (keccak_256 (toBytes voter @ toBytes election @ toBytes attestation
                 @ le_bytes 8 registeredAt))"
    by (simp add: createCompressedVoterLeaf_def writeBigInt64LE_alloc)
  from a show "length (toBytes voter @ toBytes election @ toBytes attestation
                 @ le_bytes 8 registeredAt) = 104"
    by (simp add: valid_key_def length_le_bytes)
  show "length (le_bytes 8 registeredAt) = 8" by (rule length_le_bytes)
  from a show "int64_of_le (le_bytes 8 registeredAt) = registeredAt"
    by (simp add: int64_of_le_le_bytes)
qed

text \<open>Witness for C6: three keys of 32 bytes and the timestamp 1700000000.\<close>

theorem leaf_derivation_layout_witness:
  "valid_key (PublicKey (replicate 32 1)) \<and> valid_key (PublicKey (replicate 32 2))
   \<and> valid_key (PublicKey (replicate 32 3))
   \<and> - (2 ^ 63) \<le> (1700000000 :: int) \<and> (1700000000 :: int) < 2 ^ 63
   \<and> createCompressedVoterLeaf toy_hash (PublicKey (replicate 32 1))
        (PublicKey (replicate 32 2)) (PublicKey (replicate 32 3)) 1700000000
      = Inr (toy_hash (replicate 32 1 @ replicate 32 2 @ replicate 32 3
               @ [0, 241, 83, 101, 0, 0, 0, 0]))
   \<and> int64_of_le [0, 241, 83, 101, 0, 0, 0, 0] = 1700000000"
proof -
  have k: "valid_key (PublicKey (replicate 32 1))" "valid_key (PublicKey (replicate 32 2))"
    "valid_key (PublicKey (replicate 32 3))"
    by (simp_all add: valid_key_def)
  have r: "- (2 ^ 63) \<le> (1700000000 :: int)" "(1700000000 :: int) < 2 ^ 63" by simp_all
  have e: "le_bytes 8 1700000000 = [0, 241, 83, 101, 0, 0, 0, 0]" by code_simp
  from leaf_derivation_layout [of "PublicKey (replicate 32 1)" "PublicKey (replicate 32 2)"
      "PublicKey (replicate 32 3)" 1700000000 toy_hash] k r
  show ?thesis by (simp add: e)
qed

text \<open>Outside the signed 64-bit range both helpers raise, as the buffer write does.\<close>

lemma createCompressedVoterLeaf_out_of_range:
  "\<not> (- (2 ^ 63) \<le> registeredAt \<and> registeredAt < 2 ^ 63) \<Longrightarrow>
   createCompressedVoterLeaf keccak_256 voter election attestation registeredAt = Inl RangeError"
  by (simp add: createCompressedVoterLeaf_def writeBigInt64LE_alloc)

section \<open>Nullifier derivation\<close>

text \<open>
  Claim C8. For keys of 32 bytes and a nonce that is a signed 64-bit integer,
  \<open>createNullifier\<close> returns the hash of the 72 bytes voter, election and the nonce as
  8 bytes that read back, little-endian and signed, as the nonce; an omitted nonce is
  the nonce 0; and equal inputs give equal tokens.
\<close>

theorem createNullifier_layout:
  "(valid_key voter \<and> valid_key election \<and> - (2 ^ 63) \<le> nonce \<and> nonce < 2 ^ 63 \<longrightarrow>
      createNullifier keccak_256 voter election (Some nonce)
        = Inr (keccak_256 (toBytes voter @ toBytes election @ le_bytes 8 nonce))
      \<and> length (toBytes voter @ toBytes election @ le_bytes 8 nonce) = 72
      \<and> length (le_bytes 8 nonce) = 8
      \<and> int64_of_le (le_bytes 8 nonce) = nonce)
   \<and> createNullifier keccak_256 voter election None
       = createNullifier keccak_256 voter election (Some 0)
   \<and> createNullifier keccak_256 voter election None
       = Inr (keccak_256 (toBytes voter @ toBytes election @ replicate 8 0))
   \<and> (voter = voter' \<and> election = election' \<and> nonce_arg = nonce_arg' \<longrightarrow>
        createNullifier keccak_256 voter election nonce_arg
          = createNullifier keccak_256 voter' election' nonce_arg')"
proof (intro conjI impI)
  assume a: "valid_key voter \<and> valid_key election \<and> - (2 ^ 63) \<le> nonce \<and> nonce < 2 ^ 63"
  then show "createNullifier keccak_256 voter election (Some nonce)
        = Inr (keccak_256 (toBytes voter @ toBytes election @ le_bytes 8 nonce))"
    by (simp add: createNullifier_def writeBigInt64LE_alloc)
  from a show "length (toBytes voter @ toBytes election @ le_bytes 8 nonce) = 72"
    by (simp add: valid_key_def length_le_bytes)
  show "length (le_bytes 8 nonce) = 8" by (rule length_le_bytes)
  from a show "int64_of_le (le_bytes 8 nonce) = nonce" by (simp add: int64_of_le_le_bytes)
next
  show "createNullifier keccak_256 voter election None
       = createNullifier keccak_256 voter election (Some 0)"
    by (simp add: createNullifier_def)
  have "le_bytes 8 0 = replicate 8 0" by code_simp
  then show "createNullifier keccak_256 voter election None
       = Inr (keccak_256 (toBytes voter @ toBytes election @ replicate 8 0))"
    by (simp add: createNullifier_def writeBigInt64LE_alloc)
next
  assume "voter = voter' \<and> election = election' \<and> nonce_arg = nonce_arg'"
  then show "createNullifier keccak_256 voter election nonce_arg
          = createNullifier keccak_256 voter' election' nonce_arg'" by simp
qed

text \<open>Witness for C8: two keys of 32 bytes, the nonce -2 and the omitted nonce.\<close>

theorem createNullifier_layout_witness:
  "valid_key (PublicKey (replicate 32 1)) \<and> valid_key (PublicKey (replicate 32 2))
   \<and> - (2 ^ 63) \<le> (-2 :: int) \<and> (-2 :: int) < 2 ^ 63
   \<and> createNullifier toy_hash (PublicKey (replicate 32 1)) (PublicKey (replicate 32 2))
        (Some (-2))
      = Inr (toy_hash (replicate 32 1 @ replicate 32 2
               @ [254, 255, 255, 255, 255, 255, 255, 255]))
   \<and> int64_of_le [254, 255, 255, 255, 255, 255, 255, 255] = -2
   \<and> createNullifier toy_hash (PublicKey (replicate 32 1)) (PublicKey (replicate 32 2)) None
      = Inr (toy_hash (replicate 32 1 @ replicate 32 2 @ replicate 8 0))"
proof -
  have k: "valid_key (PublicKey (replicate 32 1))" "valid_key (PublicKey (replicate 32 2))"
    by (simp_all add: valid_key_def)
  have r: "- (2 ^ 63) \<le> (-2 :: int)" "(-2 :: int) < 2 ^ 63" by simp_all
  have e: "le_bytes 8 (-2) = [254, 255, 255, 255, 255, 255, 255, 255]" by code_simp
  note t = createNullifier_layout [of "PublicKey (replicate 32 1)" "PublicKey (replicate 32 2)"
      "-2" toy_hash "PublicKey (replicate 32 1)" "PublicKey (replicate 32 2)" None None]
  from t k r
  have "createNullifier toy_hash (PublicKey (replicate 32 1)) (PublicKey (replicate 32 2))
        (Some (-2))
      = Inr (toy_hash (replicate 32 1 @ replicate 32 2
               @ [254, 255, 255, 255, 255, 255, 255, 255]))
   \<and> int64_of_le [254, 255, 255, 255, 255, 255, 255, 255] = -2"
    by (simp add: e)
  moreover from t
  have "createNullifier toy_hash (PublicKey (replicate 32 1)) (PublicKey (replicate 32 2)) None
      = Inr (toy_hash (toBytes (PublicKey (replicate 32 1))
               @ toBytes (PublicKey (replicate 32 2)) @ replicate 8 0))"
    by blast
  then
  have "createNullifier toy_hash (PublicKey (replicate 32 1)) (PublicKey (replicate 32 2)) None
      = Inr (toy_hash (replicate 32 1 @ replicate 32 2 @ replicate 8 0))"
    by simp
  ultimately show ?thesis using k r by blast
qed

section \<open>Merkle tree sizing\<close>

text \<open>
  Claim C7. \<open>getMerkleTreeSize\<close> returns depth 10 up to 1024 voters, depth 12 above
  1024 and up to 4096, depth 14 above 4096 and up to 16384, and depth 20 above that,
  with buffer size 64 in the first three tiers and 256 in the last.
\<close>

theorem getMerkleTreeSize_tiers:
  "(maxVoters \<le> 1024 \<longrightarrow> getMerkleTreeSize maxVoters = (10, 64))
   \<and> (1024 < maxVoters \<and> maxVoters \<le> 4096 \<longrightarrow> getMerkleTreeSize maxVoters = (12, 64))
   \<and> (4096 < maxVoters \<and> maxVoters \<le> 16384 \<longrightarrow> getMerkleTreeSize maxVoters = (14, 64))
   \<and> (16384 < maxVoters \<longrightarrow> getMerkleTreeSize maxVoters = (20, 256))"
  by (simp add: getMerkleTreeSize_def)

text \<open>Witness for C7: both sides of every tier boundary, and the SDK's default 10000.\<close>

theorem getMerkleTreeSize_tiers_witness:
  "getMerkleTreeSize 1024 = (10, 64) \<and> getMerkleTreeSize 1025 = (12, 64)
   \<and> getMerkleTreeSize 4096 = (12, 64) \<and> getMerkleTreeSize 4097 = (14, 64)
   \<and> getMerkleTreeSize 16384 = (14, 64) \<and> getMerkleTreeSize 16385 = (20, 256)
   \<and> getMerkleTreeSize 10000 = (14, 64)"
  using getMerkleTreeSize_tiers [of 1024] getMerkleTreeSize_tiers [of 1025]
    getMerkleTreeSize_tiers [of 4096] getMerkleTreeSize_tiers [of 4097]
    getMerkleTreeSize_tiers [of 16384] getMerkleTreeSize_tiers [of 16385]
    getMerkleTreeSize_tiers [of 10000]
  by simp

section \<open>The root and the proofs of SimpleMerkleTree\<close>

lemma leaves_foldl_addLeaf: "leaves (foldl addLeaf t ls) = leaves t @ ls"
  by (induction ls arbitrary: t) (simp_all add: addLeaf_def)

lemma leaves_admit_all: "leaves (admit_all ls) = ls"
  by (simp add: admit_all_def leaves_foldl_addLeaf new_tree_def)

lemma getRoot_last: "leaves t \<noteq> [] \<Longrightarrow> getRoot t = last (leaves t)"
  by (cases "leaves t" rule: rev_cases) (auto simp: getRoot_def nth_append)

text \<open>
  Claim C9. \<open>getRoot\<close> returns 32 zero bytes for a tree without leaves, the sole leaf
  of a tree with one leaf and the last leaf of a tree with two or more; so after
  \<open>addLeaf\<close> the root is the leaf just added, whatever was admitted before it.
\<close>

theorem getRoot_cases:
  "(length (leaves t) = 0 \<longrightarrow> getRoot t = replicate 32 0)
   \<and> (length (leaves t) = 1 \<longrightarrow> getRoot t = leaves t ! 0)
   \<and> (2 \<le> length (leaves t) \<longrightarrow> getRoot t = last (leaves t))
   \<and> getRoot new_tree = replicate 32 0
   \<and> getRoot (addLeaf t leaf) = leaf
   \<and> getRoot (admit_all (ls @ [leaf])) = getRoot (admit_all (ls' @ [leaf]))"
proof (intro conjI impI)
  show "getRoot (addLeaf t leaf) = leaf"
    by (simp add: getRoot_last addLeaf_def)
  show "getRoot (admit_all (ls @ [leaf])) = getRoot (admit_all (ls' @ [leaf]))"
    by (simp add: getRoot_last leaves_admit_all)
  show "2 \<le> length (leaves t) \<Longrightarrow> getRoot t = last (leaves t)"
    by (rule getRoot_last) auto
qed (simp_all add: getRoot_def alloc_def new_tree_def)

text \<open>Witness for C9: trees of no, one and three leaves.\<close>

theorem getRoot_cases_witness:
  "getRoot (admit_all []) = replicate 32 0
   \<and> getRoot (admit_all [[1, 2]]) = [1, 2]
   \<and> getRoot (admit_all [[1, 2], [3, 4], [5, 6]]) = [5, 6]"
proof -
  have l: "leaves (admit_all []) = []" "leaves (admit_all [[1, 2]]) = [[1, 2]]"
    "leaves (admit_all [[1, 2], [3, 4], [5, 6]]) = [[1, 2], [3, 4], [5, 6 :: byte]]"
    by (simp_all add: admit_all_def addLeaf_def new_tree_def)
  from getRoot_cases [of "admit_all []"] getRoot_cases [of "admit_all [[1, 2]]"]
    getRoot_cases [of "admit_all [[1, 2], [3, 4], [5, 6]]"]
  show ?thesis by (simp add: l)
qed

text \<open>
  Claim C10. \<open>getProof\<close> returns the empty array for every leaf index and every tree.
\<close>

theorem getProof_empty: "getProof t leafIndex = []"
  by (simp add: getProof_def)

text \<open>
  Claim C1, as stated, fails: in the tree of two different leaves the proof generated
  for index 0 is empty and the root is the second leaf, so the first leaf is rejected.
  (The proof being empty, \<open>verifyProof\<close> never calls the hash.)
\<close>

theorem first_of_two_leaves_rejected:
  "\<not> verifyProof toy_hash (replicate 32 1)
       (getProof (admit_all [replicate 32 1, replicate 32 2]) 0) 0
       (getRoot (admit_all [replicate 32 1, replicate 32 2]))"
  by (simp add: verifyProof_def getProof_def getRoot_def admit_all_def addLeaf_def new_tree_def)

text \<open>
  Claim C1, amended. For every sequence of admitted leaves and every index \<open>i\<close> into
  it, verifying the \<open>i\<close>-th leaf with the proof generated for \<open>i\<close> against the root
  after all admissions returns true exactly when the \<open>i\<close>-th leaf equals the leaf
  admitted last; so it returns true for the last index.
\<close>

theorem tree_proof_accepted_iff_last_leaf:
  "(i < length ls \<longrightarrow>
      verifyProof keccak_256 (ls ! i) (getProof (admit_all ls) (int i)) (int i)
          (getRoot (admit_all ls))
        = (ls ! i = last ls))
   \<and> (ls \<noteq> [] \<longrightarrow>
      verifyProof keccak_256 (ls ! (length ls - 1))
        (getProof (admit_all ls) (int (length ls - 1))) (int (length ls - 1))
        (getRoot (admit_all ls)))"
  by (cases "ls = []")
    (simp_all add: verifyProof_def getProof_def getRoot_last leaves_admit_all last_conv_nth)

text \<open>Witness for the amended C1: three leaves, the first equal to the last.\<close>

theorem tree_proof_accepted_iff_last_leaf_witness:
  "verifyProof toy_hash ([[5, 6], [3, 4], [5, 6]] ! 0)
       (getProof (admit_all [[5, 6], [3, 4], [5, 6]]) 0) 0
       (getRoot (admit_all [[5, 6], [3, 4], [5, 6]]))
   \<and> \<not> verifyProof toy_hash ([[5, 6], [3, 4], [5, 6]] ! 1)
       (getProof (admit_all [[5, 6], [3, 4], [5, 6]]) 1) 1
       (getRoot (admit_all [[5, 6], [3, 4], [5, 6]]))
   \<and> verifyProof toy_hash ([[5, 6], [3, 4], [5, 6]] ! 2)
       (getProof (admit_all [[5, 6], [3, 4], [5, 6]]) 2) 2
       (getRoot (admit_all [[5, 6], [3, 4], [5, 6]]))"
  using tree_proof_accepted_iff_last_leaf [of 0 "[[5, 6], [3, 4], [5, 6]]" toy_hash]
    tree_proof_accepted_iff_last_leaf [of 1 "[[5, 6], [3, 4], [5, 6]]" toy_hash]
    tree_proof_accepted_iff_last_leaf [of 2 "[[5, 6], [3, 4], [5, 6]]" toy_hash]
  by simp

section \<open>What verifyProof computes\<close>

lemma isLeftNode_bit: "isLeftNode leafIndex i = (\<not> bit leafIndex (i mod 32))"
  by (simp add: isLeftNode_def ToInt32_def shl_def push_bit_of_1 and_exp_eq_0_iff_not_bit
      bit_word_of_int_iff)

lemma verifyProof_loop_reconstruct:
  "i + length proof \<le> 32 \<Longrightarrow>
     verifyProof_loop H leafIndex i proof h = reconstruct H leafIndex i proof h"
proof (induction "proof" arbitrary: i h)
  case Nil
  show ?case by simp
next
  case (Cons s rest)
  then have "i < 32" by simp
  then have "isLeftNode leafIndex i = (\<not> bit leafIndex i)" by (simp add: isLeftNode_bit)
  moreover have "Suc i + length rest \<le> 32" using Cons.prems by simp
  ultimately show ?case using Cons.IH [of "Suc i"] by simp
qed

text \<open>
  Up to 32 siblings \<open>verifyProof\<close> is the reconstruction of the specification, and on
  the empty proof it compares the leaf with the root.
\<close>

lemma verifyProof_reconstruct:
  "length proof \<le> 32 \<Longrightarrow>
     verifyProof H leaf proof leafIndex root = (reconstruct H leafIndex 0 proof leaf = root)"
  by (cases "proof")
    (simp_all add: verifyProof_def verifyProof_loop_reconstruct
       del: verifyProof_loop.simps reconstruct.simps, simp)

lemma verifyProof_empty_proof: "verifyProof H leaf [] leafIndex root = (leaf = root)"
  by (simp add: verifyProof_def)

lemma verifyProof_loop_append:
  "verifyProof_loop H leafIndex i (xs @ ys) h =
     verifyProof_loop H leafIndex (i + length xs) ys (verifyProof_loop H leafIndex i xs h)"
  by (induction xs arbitrary: i h) simp_all

lemma reconstruct_append:
  "reconstruct H leafIndex i (xs @ ys) h =
     reconstruct H leafIndex (i + length xs) ys (reconstruct H leafIndex i xs h)"
  by (induction xs arbitrary: i h) simp_all

text \<open>
  Claim C2 at a proof of 33 siblings and leaf index 1. The shift count 32 wraps to 0, so
  at level 32 the code tests bit 0 of the index, finds it set and hashes sibling before
  current; bit 32 of the index 1 is clear, and the reconstruction of the claim hashes
  current before sibling. The two agree on the first 32 levels.
\<close>

theorem verifyProof_level_32:
  "verifyProof keccak_256 leaf (replicate 32 s @ [t]) 1 root
     = (keccak_256 (t @ reconstruct keccak_256 1 0 (replicate 32 s) leaf) = root)
   \<and> reconstruct keccak_256 1 0 (replicate 32 s @ [t]) leaf
     = keccak_256 (reconstruct keccak_256 1 0 (replicate 32 s) leaf @ t)
   \<and> \<not> isLeftNode 1 32 \<and> \<not> bit (1 :: int) 32"
  by (simp add: verifyProof_def verifyProof_loop_append reconstruct_append
      verifyProof_loop_reconstruct isLeftNode_bit)

text \<open>
  So, unless the hash gives the two concatenations one digest, at this input the code
  accepts a root that is not the reconstructed one and rejects the reconstructed one.
\<close>

lemma verifyProof_level_32_differs:
  assumes "H (t @ reconstruct H 1 0 (replicate 32 s) leaf)
             \<noteq> H (reconstruct H 1 0 (replicate 32 s) leaf @ t)"
  shows "verifyProof H leaf (replicate 32 s @ [t]) 1
           (H (t @ reconstruct H 1 0 (replicate 32 s) leaf))
       \<and> \<not> verifyProof H leaf (replicate 32 s @ [t]) 1
           (reconstruct H 1 0 (replicate 32 s @ [t]) leaf)"
  using assms
  by (simp add: verifyProof_def verifyProof_loop_append reconstruct_append
      verifyProof_loop_reconstruct isLeftNode_bit)

section \<open>Perturbed inputs\<close>

text \<open>
  With the empty proof, the only one the tree generates, \<open>verifyProof\<close> compares the
  leaf with the root, and a leaf with one byte changed is rejected whatever the hash.
\<close>

lemma perturbed_leaf_rejected_empty_proof:
  "verifyProof H leaf [] leafIndex root \<Longrightarrow> j < length leaf \<Longrightarrow> v \<noteq> leaf ! j \<Longrightarrow>
   \<not> verifyProof H (leaf[j := v]) [] leafIndex root"
  by (metis verifyProof_empty_proof nth_list_update_eq)

text \<open>
  With a non-empty proof the outcome rests on the hash. The loop maps different
  starting hashes, and proofs that differ in one sibling, to different results only as
  far as the hash keeps different strings apart; so an input and a perturbed input
  that are both accepted exhibit two different byte strings with one digest.
\<close>

lemma loop_differs_current:
  "collision_free H \<Longrightarrow> h \<noteq> h' \<Longrightarrow>
   verifyProof_loop H leafIndex i proof h \<noteq> verifyProof_loop H leafIndex i proof h'"
proof (induction "proof" arbitrary: i h h')
  case Nil
  then show ?case by simp
next
  case (Cons s rest)
  let ?d = "if isLeftNode leafIndex i then h @ s else s @ h"
  let ?d' = "if isLeftNode leafIndex i then h' @ s else s @ h'"
  from Cons.prems(2) have "?d \<noteq> ?d'" by simp
  with Cons.prems(1) have "H ?d \<noteq> H ?d'" unfolding collision_free_def by blast
  from Cons.IH [OF Cons.prems(1) this, of "Suc i"] show ?case by (simp split: if_splits)
qed

lemma loop_differs_sibling:
  "collision_free H \<Longrightarrow> k < length proof \<Longrightarrow> s' \<noteq> proof ! k \<Longrightarrow>
   verifyProof_loop H leafIndex i proof h \<noteq> verifyProof_loop H leafIndex i (proof[k := s']) h"
proof (induction "proof" arbitrary: i h k)
  case Nil
  then show ?case by simp
next
  case (Cons s rest)
  show ?case
  proof (cases k)
    case 0
    let ?d = "if isLeftNode leafIndex i then h @ s else s @ h"
    let ?d' = "if isLeftNode leafIndex i then h @ s' else s' @ h"
    from Cons.prems(3) 0 have "?d \<noteq> ?d'" by simp
    with Cons.prems(1) have "H ?d \<noteq> H ?d'" unfolding collision_free_def by blast
    from loop_differs_current [OF Cons.prems(1) this, of leafIndex "Suc i" rest] 0
    show ?thesis by (simp split: if_splits)
  next
    case (Suc k')
    with Cons.prems have "k' < length rest" "s' \<noteq> rest ! k'" by simp_all
    from Cons.IH [OF Cons.prems(1) this] Suc show ?thesis by simp
  qed
qed

lemma accepted_perturbed_leaf_collides:
  assumes "verifyProof H leaf proof leafIndex root"
    and "verifyProof H (leaf[j := v]) proof leafIndex root"
    and "j < length leaf" "v \<noteq> leaf ! j"
  shows "\<exists>x y. x \<noteq> y \<and> H x = H y"
proof (rule ccontr)
  assume "\<not> (\<exists>x y. x \<noteq> y \<and> H x = H y)"
  then have c: "collision_free H" unfolding collision_free_def by blast
  from assms(3,4) have ne: "leaf \<noteq> leaf[j := v]" by (metis nth_list_update_eq)
  show False
  proof (cases "proof")
    case Nil
    with assms(1,2) ne show False by (simp add: verifyProof_def)
  next
    case (Cons s rest)
    with assms(1,2) loop_differs_current [OF c ne, of leafIndex 0 "proof"]
    show False by (simp add: verifyProof_def)
  qed
qed

lemma accepted_perturbed_sibling_collides:
  assumes "verifyProof H leaf proof leafIndex root"
    and "verifyProof H leaf (proof[k := (proof ! k)[j := v]]) leafIndex root"
    and "k < length proof" "j < length (proof ! k)" "v \<noteq> proof ! k ! j"
  shows "\<exists>x y. x \<noteq> y \<and> H x = H y"
proof (rule ccontr)
  assume "\<not> (\<exists>x y. x \<noteq> y \<and> H x = H y)"
  then have c: "collision_free H" unfolding collision_free_def by blast
  from assms(4,5) have ne: "(proof ! k)[j := v] \<noteq> proof ! k" by (metis nth_list_update_eq)
  from assms(3) have "proof \<noteq> []" by auto
  with assms(1,2) loop_differs_sibling [OF c assms(3) ne, of leafIndex 0 leaf]
  show False by (simp add: verifyProof_def)
qed

section \<open>The ledger on the boundaries and scenarios of the specification\<close>

text \<open>
  The testable properties of section 8 that fix the reading of the ledger: a vote at
  the end time is rejected and the start time is inside the window; the same vote
  twice, a vote after closing and a second closing are rejected; eleven candidates are
  too many.
\<close>

lemma vote_at_end_rejected:
  "start_time s \<le> end_time s \<Longrightarrow> castVote H s (end_time s) entry = Inl ElectionEnded"
  by (cases entry)
    (auto simp: castVote_def voting_permitted_def current_status_def
       split: ElectionStatus.splits)

lemma vote_at_start_in_window:
  "status s = Pending \<or> status s = Active \<Longrightarrow> start_time s < end_time s \<Longrightarrow>
   voting_permitted s (start_time s)"
  by (auto simp: voting_permitted_def current_status_def)

lemma same_vote_twice_rejected:
  assumes "castVote H s now (wallet, choice, ev) = Inr s'"
  shows "castVote H s' now (wallet, choice, ev) = Inl AlreadyVoted"
proof -
  from assms have ok: "voting_permitted s now" "start_time s \<le> now"
    "0 \<le> choice \<and> choice < int (length (candidates s))"
    "eligibility_error H s wallet ev = None"
    and s': "s' = s\<lparr>vote_counts := (vote_counts s)[nat choice := vote_counts s ! nat choice + 1],
        total_votes := total_votes s + 1,
        nullifier_registry :=
          insert (nullifier_hash H wallet (election_id s) 0) (nullifier_registry s),
        status := Active\<rparr>"
    by (auto simp: castVote_def Let_def voting_permitted_def split: if_splits option.splits)
  have "eligibility_error H s' wallet ev = eligibility_error H s wallet ev"
    by (simp add: s' eligibility_error_def split: EligibilityEvidence.splits option.splits)
  moreover have "voting_permitted s' now" "current_status s' now \<noteq> Pending"
    using ok by (simp_all add: s' voting_permitted_def current_status_def)
  ultimately show ?thesis
    using ok by (simp add: castVote_def) (simp add: s')
qed

lemma vote_after_close_rejected:
  "close s caller = Inr s' \<Longrightarrow> start_time s \<le> now \<Longrightarrow>
   castVote H s' now entry = Inl ElectionEnded"
  by (cases entry)
    (auto simp: close_def castVote_def voting_permitted_def current_status_def
       split: if_splits)

lemma close_twice_rejected:
  "close s caller = Inr s' \<Longrightarrow> close s' caller = Inl AlreadyClosed"
  by (auto simp: close_def split: if_splits)

lemma eleven_candidates_rejected:
  "length cands = 11 \<Longrightarrow>
   create H eid caller cands startTime endTime cm cap now = Inl TooManyCandidates"
  by (simp add: create_def max_candidates_def)

section \<open>The tally invariant\<close>

lemma create_consistent:
  "create H eid caller cands startTime endTime cm cap now = Inr s \<Longrightarrow> tally_consistent s"
  by (auto simp: create_def tally_consistent_def split: if_splits)

lemma sum_list_bump:
  "i < length (xs :: nat list) \<Longrightarrow> sum_list (xs[i := Suc (xs ! i)]) = Suc (sum_list xs)"
  by (simp add: sum_list_update)

lemma castVote_effect:
  assumes "castVote H s now (wallet, choice, ev) = Inr s'"
  shows "0 \<le> choice \<and> choice < int (length (candidates s))
     \<and> vote_counts s' = (vote_counts s)[nat choice := vote_counts s ! nat choice + 1]
     \<and> total_votes s' = total_votes s + 1
     \<and> candidates s' = candidates s
     \<and> nullifier_hash H wallet (election_id s) 0 \<notin> nullifier_registry s
     \<and> nullifier_registry s'
         = insert (nullifier_hash H wallet (election_id s) 0) (nullifier_registry s)"
  using assms
  by (auto simp: castVote_def Let_def split: if_splits option.splits)

lemma castVote_consistent:
  assumes "tally_consistent s" "castVote H s now entry = Inr s'"
  shows "tally_consistent s'"
proof -
  obtain wallet choice ev where e: "entry = (wallet, choice, ev)" by (cases entry) auto
  from castVote_effect [OF assms(2) [unfolded e]] assms(1)
  have "nat choice < length (vote_counts s)" by (auto simp: tally_consistent_def)
  with castVote_effect [OF assms(2) [unfolded e]] assms(1)
  show ?thesis by (simp add: tally_consistent_def sum_list_bump)
qed

lemma apply_entries_consistent:
  "tally_consistent s \<Longrightarrow> apply_entries H now s entries = Inr s' \<Longrightarrow> tally_consistent s'"
  by (induction entries arbitrary: s) (auto split: sum.splits dest: castVote_consistent)

lemma castBatch_consistent:
  "tally_consistent s \<Longrightarrow> castBatch H s now entries = Inr s' \<Longrightarrow> tally_consistent s'"
  by (auto simp: castBatch_def split: if_splits dest: apply_entries_consistent)

lemma admit_consistent:
  "tally_consistent s \<Longrightarrow> admit H s now wallet aref att = Inr (i, r, s') \<Longrightarrow>
   tally_consistent s'"
  by (auto simp: admit_def tally_consistent_def Let_def split: option.splits if_splits)

lemma close_consistent:
  "tally_consistent s \<Longrightarrow> close s caller = Inr s' \<Longrightarrow> tally_consistent s'"
  by (auto simp: close_def tally_consistent_def split: if_splits)

lemma apply_operation_consistent:
  "tally_consistent s \<Longrightarrow> tally_consistent (apply_operation H s op)"
proof (cases op)
  case (Pair now x)
  assume c: "tally_consistent s"
  show ?thesis
  proof (cases x)
    case (RegisterVoter w a att)
    with Pair c show ?thesis
      by (cases "admit H s now w a att") (auto simp: commit_def dest: admit_consistent)
  next
    case (CastVote e)
    with Pair c show ?thesis
      by (cases "castVote H s now e") (auto simp: commit_def dest: castVote_consistent)
  next
    case (CastBatch es)
    with Pair c show ?thesis
      by (cases "castBatch H s now es") (auto simp: commit_def dest: castBatch_consistent)
  next
    case (CloseElection caller)
    with Pair c show ?thesis
      by (cases "close s caller") (auto simp: commit_def dest: close_consistent)
  qed
qed

lemma run_consistent: "tally_consistent s \<Longrightarrow> tally_consistent (run H s ops)"
  unfolding run_def by (induction ops arbitrary: s) (simp_all add: apply_operation_consistent)

text \<open>
  Claim C4. In every state reached from a created election by any sequence of
  registrations, votes, batches and closings, each at its own time, the sum of the
  candidate counters equals \<open>total_votes\<close>; and a successful \<open>castVote\<close> in such a
  state adds 1 to the counter of the chosen candidate, leaves the other counters as
  they are and adds 1 to \<open>total_votes\<close>.
\<close>

theorem tally_sum_invariant:
  assumes "create H eid caller cands startTime endTime cm cap now0 = Inr s0"
  shows "sum_list (vote_counts (run H s0 ops)) = total_votes (run H s0 ops)
     \<and> (castVote H (run H s0 ops) now (wallet, choice, ev) = Inr s' \<longrightarrow>
          0 \<le> choice \<and> nat choice < length (vote_counts (run H s0 ops))
          \<and> length (vote_counts s') = length (vote_counts (run H s0 ops))
          \<and> vote_counts s' ! nat choice = vote_counts (run H s0 ops) ! nat choice + 1
          \<and> (\<forall>i < length (vote_counts s'). i \<noteq> nat choice \<longrightarrow>
                vote_counts s' ! i = vote_counts (run H s0 ops) ! i)
          \<and> total_votes s' = total_votes (run H s0 ops) + 1
          \<and> sum_list (vote_counts s') = total_votes s')"
proof -
  let ?s = "run H s0 ops"
  have c: "tally_consistent ?s"
    by (rule run_consistent [OF create_consistent [OF assms]])
  then have sum: "sum_list (vote_counts ?s) = total_votes ?s"
    by (simp add: tally_consistent_def)
  {
    assume v: "castVote H ?s now (wallet, choice, ev) = Inr s'"
    from castVote_effect [OF v] c have r: "0 \<le> choice" "nat choice < length (vote_counts ?s)"
      by (auto simp: tally_consistent_def)
    from castVote_consistent [OF c v] have c': "sum_list (vote_counts s') = total_votes s'"
      by (simp add: tally_consistent_def)
    from castVote_effect [OF v] r c'
    have "0 \<le> choice \<and> nat choice < length (vote_counts ?s)
          \<and> length (vote_counts s') = length (vote_counts ?s)
          \<and> vote_counts s' ! nat choice = vote_counts ?s ! nat choice + 1
          \<and> (\<forall>i < length (vote_counts s'). i \<noteq> nat choice \<longrightarrow>
                vote_counts s' ! i = vote_counts ?s ! i)
          \<and> total_votes s' = total_votes ?s + 1
          \<and> sum_list (vote_counts s') = total_votes s'"
      by simp
  }
  with sum show ?thesis by blast
qed

section \<open>Evaluating the ledger on the scenario\<close>

lemma nullifier_toy_hash:
  "nullifier_hash toy_hash w e 0 = 7 # w @ e @ [0, 0, 0, 0, 0, 0, 0, 0]"
  by (simp add: nullifier_hash_def toy_hash_def eval_nat_numeral)

lemmas ledger_eval =
  castVote_def current_status_def voting_permitted_def eligibility_error_def
  nullifier_toy_hash counter_max_def admit_def commit_def scenario_attestation_def

lemma scenario_create:
  "create toy_hash [9] [8] [''A'', ''B''] 100 200 False 1000 100 = Inr scenario_start"
  by (simp add: create_def scenario_start_def max_candidates_def label_ok_def
      max_label_length_def)

lemma scenario_state_eq:
  "scenario_state =
     scenario_start\<lparr>vote_counts := [0, 1], total_votes := 1, admitted_count := 4,
       admitted_wallets := {[4], [3], [2], [1]},
       admission_records := [
         [1] \<mapsto> \<lparr>adm_wallet = [1], adm_election = [9], adm_attestation = [11],
                  adm_timestamp = 100\<rparr>,
         [2] \<mapsto> \<lparr>adm_wallet = [2], adm_election = [9], adm_attestation = [12],
                  adm_timestamp = 101\<rparr>,
         [3] \<mapsto> \<lparr>adm_wallet = [3], adm_election = [9], adm_attestation = [13],
                  adm_timestamp = 102\<rparr>,
         [4] \<mapsto> \<lparr>adm_wallet = [4], adm_election = [9], adm_attestation = [14],
                  adm_timestamp = 103\<rparr>],
       nullifier_registry := {nullifier_hash toy_hash [4] [9] 0}\<rparr>"
  by (simp add: scenario_state_def run_def scenario_ops_def scenario_start_def ledger_eval)

lemma scenario_consistent: "tally_consistent scenario_state"
  by (simp add: scenario_state_eq scenario_start_def tally_consistent_def)

lemma scenario_vote:
  "castVote toy_hash scenario_state 150 ([1], 0, DirectRecord [1]) =
     Inr (scenario_state\<lparr>vote_counts := [1, 1], total_votes := 2,
       nullifier_registry :=
         {nullifier_hash toy_hash [1] [9] 0, nullifier_hash toy_hash [4] [9] 0}\<rparr>)"
  by (simp add: scenario_state_eq scenario_start_def ledger_eval)

lemma scenario_first_three:
  "apply_entries toy_hash 150 scenario_state (take 3 scenario_batch) =
     Inr (scenario_state\<lparr>vote_counts := [2, 2], total_votes := 4,
       nullifier_registry :=
         {nullifier_hash toy_hash [3] [9] 0, nullifier_hash toy_hash [2] [9] 0,
          nullifier_hash toy_hash [1] [9] 0, nullifier_hash toy_hash [4] [9] 0}\<rparr>)"
  by (simp add: scenario_state_eq scenario_batch_def scenario_start_def ledger_eval)

lemma scenario_fourth:
  "castVote toy_hash (scenario_state\<lparr>vote_counts := [2, 2], total_votes := 4,
       nullifier_registry :=
         {nullifier_hash toy_hash [3] [9] 0, nullifier_hash toy_hash [2] [9] 0,
          nullifier_hash toy_hash [1] [9] 0, nullifier_hash toy_hash [4] [9] 0}\<rparr>)
     150 (scenario_batch ! 3) = Inl AlreadyVoted"
  by (simp add: scenario_state_eq scenario_batch_def scenario_start_def ledger_eval)

lemma scenario_fourth_alone:
  "castVote toy_hash scenario_state 150 (scenario_batch ! 3) = Inl AlreadyVoted"
  by (simp add: scenario_state_eq scenario_batch_def scenario_start_def ledger_eval)

text \<open>
  Witness for C4: the scenario election after four registrations and one vote, and a
  further vote of wallet \<open>[1]\<close> for candidate 0.
\<close>

theorem tally_sum_invariant_witness:
  "create toy_hash [9] [8] [''A'', ''B''] 100 200 False 1000 100 = Inr scenario_start
   \<and> vote_counts (run toy_hash scenario_start scenario_ops) = [0, 1]
   \<and> total_votes (run toy_hash scenario_start scenario_ops) = 1
   \<and> sum_list (vote_counts (run toy_hash scenario_start scenario_ops))
       = total_votes (run toy_hash scenario_start scenario_ops)
   \<and> (\<exists>s'. castVote toy_hash (run toy_hash scenario_start scenario_ops) 150
              ([1], 0, DirectRecord [1]) = Inr s'
         \<and> vote_counts s' = [1, 1] \<and> total_votes s' = 2
         \<and> sum_list (vote_counts s') = total_votes s')"
proof -
  let ?s' = "scenario_state\<lparr>vote_counts := [1, 1], total_votes := 2,
       nullifier_registry :=
         {nullifier_hash toy_hash [1] [9] 0, nullifier_hash toy_hash [4] [9] 0}\<rparr>"
  have v: "castVote toy_hash (run toy_hash scenario_start scenario_ops) 150
             ([1], 0, DirectRecord [1]) = Inr ?s'"
    using scenario_vote by (simp add: scenario_state_def)
  have e: "vote_counts (run toy_hash scenario_start scenario_ops) = [0, 1]"
    "total_votes (run toy_hash scenario_start scenario_ops) = 1"
    using scenario_state_eq by (simp_all add: scenario_state_def scenario_start_def)
  from tally_sum_invariant [OF scenario_create, of scenario_ops 150 "[1]" 0 "DirectRecord [1]" ?s'] v
  have "sum_list (vote_counts (run toy_hash scenario_start scenario_ops))
       = total_votes (run toy_hash scenario_start scenario_ops)
     \<and> sum_list (vote_counts ?s') = total_votes ?s'"
    by blast
  with scenario_create v e show ?thesis by simp
qed

section \<open>Batches are all or nothing\<close>

lemma apply_entries_first_failure:
  "k < length entries \<Longrightarrow> apply_entries H now s (take k entries) = Inr w \<Longrightarrow>
   castVote H w now (entries ! k) = Inl err \<Longrightarrow> apply_entries H now s entries = Inl err"
proof (induction entries arbitrary: s k)
  case Nil
  then show ?case by simp
next
  case (Cons e es)
  show ?case
  proof (cases k)
    case 0
    with Cons.prems show ?thesis by simp
  next
    case (Suc k')
    with Cons.prems obtain s1 where s1: "castVote H s now e = Inr s1"
      and rest: "apply_entries H now s1 (take k' es) = Inr w"
      by (auto split: sum.splits)
    from Cons.IH [OF _ rest] Cons.prems Suc have "apply_entries H now s1 es = Inl err" by simp
    with s1 show ?thesis by simp
  qed
qed

lemma working_state_refl: "working_state_of now s s"
  by (simp add: working_state_of_def list_all2_same)

lemma working_fields:
  assumes "working_state_of now s w"
  shows "candidates w = candidates s" "election_id w = election_id s"
    "start_time w = start_time s" "end_time w = end_time s"
    "compression w = compression s" "accumulator_root w = accumulator_root s"
    "admission_records w = admission_records s"
proof -
  from assms have e: "w = s\<lparr>vote_counts := vote_counts w, total_votes := total_votes w,
            nullifier_registry := nullifier_registry w, status := status w\<rparr>"
    by (simp add: working_state_of_def)
  show "candidates w = candidates s" by (subst e) simp
  show "election_id w = election_id s" by (subst e) simp
  show "start_time w = start_time s" by (subst e) simp
  show "end_time w = end_time s" by (subst e) simp
  show "compression w = compression s" by (subst e) simp
  show "accumulator_root w = accumulator_root s" by (subst e) simp
  show "admission_records w = admission_records s" by (subst e) simp
qed

lemma working_window:
  assumes "working_state_of now s w"
  shows "voting_permitted w now \<longleftrightarrow> voting_permitted s now"
    and "(current_status w now = Pending \<or> now < start_time w)
          \<longleftrightarrow> (current_status s now = Pending \<or> now < start_time s)"
  using assms working_fields [OF assms]
  by (auto simp: working_state_of_def voting_permitted_def current_status_def
      split: ElectionStatus.splits if_splits)

lemma working_eligibility:
  assumes "working_state_of now s w"
  shows "eligibility_error H w wallet ev = eligibility_error H s wallet ev"
  using working_fields [OF assms]
  by (simp add: eligibility_error_def split: EligibilityEvidence.splits option.splits)

text \<open>An entry that fails against the state before the batch fails against every
  working state of the batch.\<close>

lemma castVote_still_fails:
  assumes w: "working_state_of now s w"
    and len: "length (vote_counts s) = length (candidates s)"
    and f: "castVote H s now entry = Inl err"
  shows "\<exists>err'. castVote H w now entry = Inl err'"
proof -
  obtain wallet choice ev where e: "entry = (wallet, choice, ev)" by (cases entry) auto
  note fs = working_fields [OF w] working_window [OF w] working_eligibility [OF w]
  show ?thesis
  proof (cases "castVote H w now entry")
    case (Inl a)
    then show ?thesis by blast
  next
    case (Inr w')
    from Inr have ok: "voting_permitted s now" "0 \<le> choice"
      "choice < int (length (candidates s))"
      "eligibility_error H s wallet ev = None"
      "nullifier_hash H wallet (election_id s) 0 \<notin> nullifier_registry w"
      "\<not> counter_max \<le> vote_counts w ! nat choice" "\<not> counter_max \<le> total_votes w"
      "\<not> (current_status s now = Pending \<or> now < start_time s)"
      unfolding e castVote_def using fs
      by (auto simp: Let_def split: if_splits option.splits)
    from ok len have i: "nat choice < length (vote_counts s)" by simp
    from w have "list_all2 (\<le>) (vote_counts s) (vote_counts w)"
      and sub: "nullifier_registry s \<subseteq> nullifier_registry w"
      and tot: "total_votes s \<le> total_votes w"
      by (simp_all add: working_state_of_def)
    with i have "vote_counts s ! nat choice \<le> vote_counts w ! nat choice"
      by (simp add: list_all2_nthD)
    with ok sub tot have "\<exists>s'. castVote H s now entry = Inr s'"
      unfolding e castVote_def by (auto simp: Let_def)
    with f show ?thesis by simp
  qed
qed

lemma castVote_working:
  assumes w: "working_state_of now s w"
    and v: "castVote H w now entry = Inr w'"
  shows "working_state_of now s w'"
proof -
  obtain wallet choice ev where e: "entry = (wallet, choice, ev)" by (cases entry) auto
  from v have p: "voting_permitted w now"
    unfolding e castVote_def by (auto simp: Let_def split: if_splits option.splits)
  then have ps: "voting_permitted s now" using working_window(1) [OF w] by simp
  from v have w': "w' = w\<lparr>vote_counts :=
          (vote_counts w)[nat choice := vote_counts w ! nat choice + 1],
        total_votes := total_votes w + 1,
        nullifier_registry :=
          insert (nullifier_hash H wallet (election_id w) 0) (nullifier_registry w),
        status := Active\<rparr>"
    unfolding e castVote_def by (auto simp: Let_def split: if_splits option.splits)
  from w have eq: "w = s\<lparr>vote_counts := vote_counts w, total_votes := total_votes w,
            nullifier_registry := nullifier_registry w, status := status w\<rparr>"
    and sub: "nullifier_registry s \<subseteq> nullifier_registry w"
    and len: "length (vote_counts w) = length (vote_counts s)"
    and le: "list_all2 (\<le>) (vote_counts s) (vote_counts w)"
    and tot: "total_votes s \<le> total_votes w"
    by (simp_all add: working_state_of_def)
  have le': "list_all2 (\<le>) (vote_counts s)
               ((vote_counts w)[nat choice := vote_counts w ! nat choice + 1])"
  proof (rule list_all2_all_nthI)
    show "length (vote_counts s)
            = length ((vote_counts w)[nat choice := vote_counts w ! nat choice + 1])"
      using len by simp
  next
    fix i assume i: "i < length (vote_counts s)"
    with le have "vote_counts s ! i \<le> vote_counts w ! i" by (simp add: list_all2_nthD)
    moreover from i len have "i < length (vote_counts w)" by simp
    ultimately show "vote_counts s ! i
        \<le> (vote_counts w)[nat choice := vote_counts w ! nat choice + 1] ! i"
      by (cases "i = nat choice") simp_all
  qed
  have "w' = s\<lparr>vote_counts := vote_counts w', total_votes := total_votes w',
            nullifier_registry := nullifier_registry w', status := status w'\<rparr>"
    by (subst (1) w', subst (1) eq) (simp add: w')
  with sub len le' tot ps show ?thesis
    by (auto simp: working_state_of_def w')
qed

lemma apply_entries_invalid_entry:
  "working_state_of now s w \<Longrightarrow> length (vote_counts s) = length (candidates s) \<Longrightarrow>
   k < length entries \<Longrightarrow> castVote H s now (entries ! k) = Inl err \<Longrightarrow>
   \<exists>err'. apply_entries H now w entries = Inl err'"
proof (induction entries arbitrary: w k)
  case Nil
  then show ?case by simp
next
  case (Cons e es)
  show ?case
  proof (cases "castVote H w now e")
    case (Inl a)
    then show ?thesis by simp
  next
    case (Inr w')
    have w': "working_state_of now s w'" by (rule castVote_working [OF Cons.prems(1) Inr])
    show ?thesis
    proof (cases k)
      case 0
      with Cons.prems have "castVote H s now e = Inl err" by simp
      from castVote_still_fails [OF Cons.prems(1,2) this] Inr show ?thesis by simp
    next
      case (Suc k')
      with Cons.prems have "k' < length es" "castVote H s now (es ! k') = Inl err" by simp_all
      from Cons.IH [OF w' Cons.prems(2) this] Inr show ?thesis by simp
    qed
  qed
qed

text \<open>
  Claim C5. \<open>castBatch\<close> is all or nothing. If, the entries being processed in order,
  the entries before entry \<open>k\<close> pass and entry \<open>k\<close> fails its preconditions with an
  error, then a batch within the cap is rejected with that error and the election
  after the transaction is the election before it. If any entry fails its
  preconditions against the election as it is before the batch, the batch is rejected
  and the election is unchanged. Whenever a batch is rejected the election is
  unchanged: counters, total and nullifier registry are those before the batch.
\<close>

theorem castBatch_all_or_nothing:
  "(length entries \<le> batch_cap \<and> k < length entries
      \<and> apply_entries H now s (take k entries) = Inr w
      \<and> castVote H w now (entries ! k) = Inl err
     \<longrightarrow> castBatch H s now entries = Inl err
         \<and> apply_operation H s (now, CastBatch entries) = s)
   \<and> (tally_consistent s \<and> j < length entries \<and> castVote H s now (entries ! j) = Inl err'
     \<longrightarrow> (\<exists>e. castBatch H s now entries = Inl e)
         \<and> apply_operation H s (now, CastBatch entries) = s)
   \<and> (castBatch H s now entries = Inl e' \<longrightarrow>
        apply_operation H s (now, CastBatch entries) = s)"
proof (intro conjI impI)
  assume a: "length entries \<le> batch_cap \<and> k < length entries
      \<and> apply_entries H now s (take k entries) = Inr w
      \<and> castVote H w now (entries ! k) = Inl err"
  then have "apply_entries H now s entries = Inl err"
    using apply_entries_first_failure by blast
  with a show b: "castBatch H s now entries = Inl err" by (simp add: castBatch_def)
  then show "apply_operation H s (now, CastBatch entries) = s" by (simp add: commit_def)
next
  assume a: "tally_consistent s \<and> j < length entries
      \<and> castVote H s now (entries ! j) = Inl err'"
  then have len: "length (vote_counts s) = length (candidates s)"
    by (simp add: tally_consistent_def)
  from apply_entries_invalid_entry [OF working_state_refl len] a
  obtain e where "apply_entries H now s entries = Inl e" by blast
  then show b: "\<exists>e. castBatch H s now entries = Inl e" by (simp add: castBatch_def)
  then show "apply_operation H s (now, CastBatch entries) = s" by (auto simp: commit_def)
next
  assume "castBatch H s now entries = Inl e'"
  then show "apply_operation H s (now, CastBatch entries) = s" by (simp add: commit_def)
qed

text \<open>
  Witness for C5 (scenario D): three entries that pass and a fourth whose nullifier is
  already spent. The batch fails with \<open>AlreadyVoted\<close> and the counters stay [0, 1].
\<close>

theorem castBatch_all_or_nothing_witness:
  "castBatch toy_hash scenario_state 150 scenario_batch = Inl AlreadyVoted
   \<and> apply_operation toy_hash scenario_state (150, CastBatch scenario_batch) = scenario_state
   \<and> vote_counts (apply_operation toy_hash scenario_state (150, CastBatch scenario_batch))
       = [0, 1]
   \<and> total_votes (apply_operation toy_hash scenario_state (150, CastBatch scenario_batch)) = 1"
proof -
  have l: "length scenario_batch \<le> batch_cap" "3 < length scenario_batch"
    by (simp_all add: scenario_batch_def batch_cap_def)
  from castBatch_all_or_nothing [of scenario_batch 3 toy_hash 150 scenario_state _
      AlreadyVoted 3 AlreadyVoted AlreadyVoted]
    l scenario_first_three scenario_fourth scenario_fourth_alone scenario_consistent
  have m: "castBatch toy_hash scenario_state 150 scenario_batch = Inl AlreadyVoted
     \<and> apply_operation toy_hash scenario_state (150, CastBatch scenario_batch) = scenario_state"
    by simp
  have f: "vote_counts scenario_state = [0, 1]" "total_votes scenario_state = 1"
    by (simp_all add: scenario_state_eq scenario_start_def)
  from m f show ?thesis by (simp del: apply_operation.simps)
qed

end
